theory Spec2Isabelle
  imports Main "HOL-Library.Sublist"
begin

section \<open>The JavaScript Map, with its insertion order\<close>

text \<open>
  A JavaScript \<open>Map\<close> iterates its keys in insertion order, and the caches of chapter 7
  rely on that order. It is modelled as an association list with distinct keys, oldest
  insertion first. \<open>Map.prototype.get\<close> yields \<open>undefined\<close> for a missing key
  (\<open>None\<close> here; the value type \<open>'v\<close> stands for the defined values of \<open>V\<close>),
  \<open>delete\<close> removes the key, and \<open>set\<close> overwrites the value of a present key
  in place (the key keeps its position) or appends a new key at the end.
\<close>

type_synonym ('k, 'v) js_map = "('k \<times> 'v) list"

fun map_get :: "('k, 'v) js_map \<Rightarrow> 'k \<Rightarrow> 'v option" where
  "map_get [] k = None"
| "map_get ((k', v) # m) k = (if k' = k then Some v else map_get m k)"

fun map_has :: "('k, 'v) js_map \<Rightarrow> 'k \<Rightarrow> bool" where
  "map_has [] k = False"
| "map_has ((k', v) # m) k = (k' = k \<or> map_has m k)"

fun map_delete :: "('k, 'v) js_map \<Rightarrow> 'k \<Rightarrow> ('k, 'v) js_map" where
  "map_delete [] k = []"
| "map_delete ((k', v) # m) k =
     (if k' = k then map_delete m k else (k', v) # map_delete m k)"

fun map_set :: "('k, 'v) js_map \<Rightarrow> 'k \<Rightarrow> 'v \<Rightarrow> ('k, 'v) js_map" where
  "map_set [] k v = [(k, v)]"
| "map_set ((k', v') # m) k v =
     (if k' = k then (k, v) # m else (k', v') # map_set m k v)"

definition map_keys :: "('k, 'v) js_map \<Rightarrow> 'k list" where
  "map_keys m = map fst m"

text \<open>\<open>m.keys().next().value\<close>: the first key, \<open>undefined\<close> on an empty map.\<close>

definition first_key :: "('k, 'v) js_map \<Rightarrow> 'k option" where
  "first_key m = (case m of [] \<Rightarrow> None | (k, v) # rest \<Rightarrow> Some k)"

section \<open>LRUCache (07-decorators.md, lines 528--554)\<close>

text \<open>
  \<open>maxSize\<close> is a JavaScript number used as an entry count; it is an integer here, and
  may be zero or negative, as the constructor checks nothing.
\<close>

record ('k, 'v) LRUCache =
  cache :: "('k, 'v) js_map"
  maxSize :: int

definition LRUCache_new :: "int \<Rightarrow> ('k, 'v) LRUCache" where
  "LRUCache_new n = \<lparr>cache = [], maxSize = n\<rparr>"

text \<open>
  \<open>get\<close>: a defined value is deleted and set again, which moves the key to the end of
  the iteration order; the result is the value or \<open>undefined\<close>.
\<close>

definition LRUCache_get :: "('k, 'v) LRUCache \<Rightarrow> 'k \<Rightarrow> 'v option \<times> ('k, 'v) LRUCache" where
  "LRUCache_get c key =
     (case map_get (cache c) key of
        None \<Rightarrow> (None, c)
      | Some v \<Rightarrow> (Some v, c\<lparr>cache := map_set (map_delete (cache c) key) key v\<rparr>))"

text \<open>
  \<open>set\<close>: when \<open>size >= maxSize\<close> the first key of the iteration order is deleted
  (deleting \<open>undefined\<close> from an empty map does nothing); then \<open>Map.set\<close> runs.
\<close>

definition LRUCache_set :: "('k, 'v) LRUCache \<Rightarrow> 'k \<Rightarrow> 'v \<Rightarrow> ('k, 'v) LRUCache" where
  "LRUCache_set c key v =
     (let c1 = (if maxSize c \<le> int (length (cache c))
                then (case first_key (cache c) of
                        None \<Rightarrow> c
                      | Some firstKey \<Rightarrow> c\<lparr>cache := map_delete (cache c) firstKey\<rparr>)
                else c)
      in c1\<lparr>cache := map_set (cache c1) key v\<rparr>)"

text \<open>A caller's sequence of calls on one cache.\<close>

datatype ('k, 'v) lru_call = CallSet 'k 'v | CallGet 'k

fun lru_step :: "('k, 'v) LRUCache \<Rightarrow> ('k, 'v) lru_call \<Rightarrow> ('k, 'v) LRUCache" where
  "lru_step c (CallSet k v) = LRUCache_set c k v"
| "lru_step c (CallGet k) = snd (LRUCache_get c k)"

definition lru_run :: "int \<Rightarrow> ('k, 'v) lru_call list \<Rightarrow> ('k, 'v) LRUCache" where
  "lru_run n calls = foldl lru_step (LRUCache_new n) calls"

text \<open>The key a call names.\<close>

fun call_key :: "('k, 'v) lru_call \<Rightarrow> 'k" where
  "call_key (CallSet k v) = k"
| "call_key (CallGet k) = k"

text \<open>
  The representation invariant of the cache: the Map has no duplicate key, and holds at
  most \<open>maxSize\<close> entries.
\<close>

definition lru_inv :: "('k, 'v) LRUCache \<Rightarrow> bool" where
  "lru_inv c \<longleftrightarrow> distinct (map_keys (cache c)) \<and> int (length (cache c)) \<le> maxSize c"

text \<open>
  \<open>precedes j k ks\<close>: key \<open>j\<close> comes before key \<open>k\<close> in the iteration order
  \<open>ks\<close>, so \<open>j\<close> is the less recently used of the two and is evicted first.
\<close>

fun precedes :: "'k \<Rightarrow> 'k \<Rightarrow> 'k list \<Rightarrow> bool" where
  "precedes j k [] = False"
| "precedes j k (x # xs) = (if x = j then k \<in> set xs else precedes j k xs)"

text \<open>
  \<open>older j k c\<close>: as long as \<open>j\<close> is in the cache, it comes before \<open>k\<close> in
  the iteration order (so \<open>k\<close> is in the cache too).
\<close>

definition older :: "'k \<Rightarrow> 'k \<Rightarrow> ('k, 'v) LRUCache \<Rightarrow> bool" where
  "older j k c \<longleftrightarrow> distinct (map_keys (cache c))
      \<and> (j \<in> set (map_keys (cache c)) \<longrightarrow> precedes j k (map_keys (cache c)))"

section \<open>Cache with expiry (07-decorators.md, lines 886--908)\<close>

text \<open>
  Each entry stores its value and the time \<open>Date.now() + ttl\<close> of its expiry, in
  milliseconds. The clock is an argument of the model: \<open>now\<close> is what \<open>Date.now()\<close>
  returns during the call.
\<close>

record 'v cache_item =
  item_value :: 'v
  expiry :: int

record ('k, 'v) Cache =
  data :: "('k, 'v cache_item) js_map"

definition Cache_new :: "('k, 'v) Cache" where
  "Cache_new = \<lparr>data = []\<rparr>"

definition Cache_set :: "('k, 'v) Cache \<Rightarrow> 'k \<Rightarrow> 'v \<Rightarrow> int \<Rightarrow> int \<Rightarrow> ('k, 'v) Cache" where
  "Cache_set c key v ttl now =
     c\<lparr>data := map_set (data c) key \<lparr>item_value = v, expiry = now + ttl\<rparr>\<rparr>"

definition Cache_get :: "('k, 'v) Cache \<Rightarrow> 'k \<Rightarrow> int \<Rightarrow> 'v option \<times> ('k, 'v) Cache" where
  "Cache_get c key now =
     (case map_get (data c) key of
        None \<Rightarrow> (None, c)
      | Some item \<Rightarrow>
          if now > expiry item then (None, c\<lparr>data := map_delete (data c) key\<rparr>)
          else (Some (item_value item), c))"

section \<open>ResourcePool (07-decorators.md, lines 489--525)\<close>

text \<open>
  Items are compared by identity (\<open>Set.has\<close>), so an item is a value of type \<open>'a\<close>.
  The factory is a caller's function that may build a new object at each call:
  \<open>factory p n\<close> is what its call number \<open>n\<close> returns, and \<open>created\<close> counts the
  calls made so far. The \<open>reset\<close> hook changes the inside of an item, not its identity;
  \<open>resetLog\<close> records the items it was called on. \<open>pool\<close> is the array of idle
  items (\<open>push\<close> appends, \<open>pop\<close> takes the last).

  The specification names two failures of the pool. Neither method of the source has a
  \<open>throw\<close>, so in the model both return normally (\<open>Inr\<close>) on every path.
\<close>

datatype pool_error = PoolExhausted | InvalidRelease

record 'a ResourcePool =
  pool :: "'a list"
  inUse :: "'a set"
  factory :: "nat \<Rightarrow> 'a"
  created :: nat
  resetLog :: "'a list"
  initialSize :: int

text \<open>
  The constructor stores its arguments and calls \<open>initialize\<close>, whose loop pushes
  \<open>initialSize\<close> items built by the factory; \<open>initialSize\<close> is the only size the
  pool is given.
\<close>

function initialize :: "'a ResourcePool \<Rightarrow> int \<Rightarrow> 'a ResourcePool" where
  "initialize p i =
     (if i < initialSize p
      then initialize (p\<lparr>pool := pool p @ [factory p (created p)],
                          created := Suc (created p)\<rparr>) (i + 1)
      else p)"
  by pat_completeness auto
termination
  by (relation "measure (\<lambda>(p, i). nat (initialSize p - i))") auto

definition ResourcePool_new :: "(nat \<Rightarrow> 'a) \<Rightarrow> int \<Rightarrow> 'a ResourcePool" where
  "ResourcePool_new f n =
     initialize \<lparr>pool = [], inUse = {}, factory = f, created = 0, resetLog = [],
                 initialSize = n\<rparr> 0"

definition acquire :: "'a ResourcePool \<Rightarrow> pool_error + ('a \<times> 'a ResourcePool)" where
  "acquire p =
     (if length (pool p) > 0
      then (let item = last (pool p)
            in Inr (item, p\<lparr>pool := butlast (pool p), inUse := insert item (inUse p)\<rparr>))
      else (let item = factory p (created p)
            in Inr (item, p\<lparr>created := Suc (created p), inUse := insert item (inUse p)\<rparr>)))"

definition release :: "'a ResourcePool \<Rightarrow> 'a \<Rightarrow> pool_error + 'a ResourcePool" where
  "release p item =
     (if item \<in> inUse p
      then Inr (p\<lparr>inUse := inUse p - {item},
                  resetLog := resetLog p @ [item],
                  pool := pool p @ [item]\<rparr>)
      else Inr p)"

declare initialize.simps [simp del]

text \<open>A caller's sequence of calls on one pool; it stops at the first failure.\<close>

datatype 'a pool_call = Acquire | Release 'a

fun pool_step :: "'a ResourcePool \<Rightarrow> 'a pool_call \<Rightarrow> pool_error + 'a ResourcePool" where
  "pool_step p Acquire = (case acquire p of Inl e \<Rightarrow> Inl e | Inr (item, p') \<Rightarrow> Inr p')"
| "pool_step p (Release item) = release p item"

fun pool_run :: "'a ResourcePool \<Rightarrow> 'a pool_call list \<Rightarrow> pool_error + 'a ResourcePool" where
  "pool_run p [] = Inr p"
| "pool_run p (call # calls) =
     (case pool_step p call of Inl e \<Rightarrow> Inl e | Inr p' \<Rightarrow> pool_run p' calls)"

text \<open>
  The invariant of a pool whose factory builds a new object at each call: the idle items
  and the items in use are, without repetition, the objects built so far.
\<close>

definition pool_inv :: "'a ResourcePool \<Rightarrow> bool" where
  "pool_inv p \<longleftrightarrow> inj (factory p) \<and> finite (inUse p) \<and> distinct (pool p)
     \<and> set (pool p) \<inter> inUse p = {}
     \<and> set (pool p) \<union> inUse p = factory p ` {..<created p}"

section \<open>retryOperation (08-error-handling.md, lines 354--366)\<close>

text \<open>
  The operation is a caller's function that may behave differently at each call (fail
  twice, then succeed): \<open>operation n\<close> is the outcome of its call number \<open>n\<close>,
  \<open>Inl\<close> an error thrown (a rejected promise), \<open>Inr\<close> a value. The model returns
  the outcome of the whole call and the number of calls of the operation made so far.
\<close>

function retryOperation :: "(nat \<Rightarrow> 'e + 'a) \<Rightarrow> int \<Rightarrow> nat \<Rightarrow> ('e + 'a) \<times> nat" where
  "retryOperation operation retries calls =
     (case operation calls of
        Inr v \<Rightarrow> (Inr v, Suc calls)
      | Inl error \<Rightarrow>
          if retries > 0 then retryOperation operation (retries - 1) (Suc calls)
          else (Inl error, Suc calls))"
  by pat_completeness auto
termination
  by (relation "measure (\<lambda>(operation, retries, calls). nat retries)") auto

declare retryOperation.simps [simp del]

section \<open>The retry loop of NetworkOptimizer.fetch (07-decorators.md, lines 792--827)\<close>

text \<open>
  \<open>attempt i\<close> is the outcome of the \<open>try\<close> block in iteration \<open>i\<close> (the request, the
  status check, the decoding and the cache write). A failed iteration stores the error in
  \<open>lastError\<close> and sleeps before the next iteration. When the loop ends,
  \<open>lastError\<close> is thrown; it is still \<open>null\<close> (\<open>None\<close>) when the loop never ran.
  The model returns the outcome, the number of attempts made and the delays slept, which
  are the timeouts handed to \<open>setTimeout\<close>.
\<close>

text \<open>
  \<open>Math.pow(2, i) * 1000\<close>: the timeout handed to \<open>setTimeout\<close> after the failure
  of iteration \<open>i\<close>, in milliseconds. A timer honours a timeout up to \<open>2^31 - 1\<close>
  milliseconds, which this value stays below for \<open>i \<le> 21\<close>; the properties of the
  delays are stated for calls that stay in that range (at most 22 attempts).
\<close>

definition fetch_delay :: "nat \<Rightarrow> int" where
  "fetch_delay i = 2 ^ i * 1000"

function fetch_loop ::
  "(nat \<Rightarrow> 'e + 'a) \<Rightarrow> int \<Rightarrow> nat \<Rightarrow> 'e option \<Rightarrow> int list
     \<Rightarrow> ('e option + 'a) \<times> nat \<times> int list" where
  "fetch_loop attempt retries i lastError delays =
     (if int i < retries
      then (case attempt i of
              Inr d \<Rightarrow> (Inr d, Suc i, delays)
            | Inl error \<Rightarrow>
                fetch_loop attempt retries (Suc i) (Some error) (delays @ [fetch_delay i]))
      else (Inl lastError, i, delays))"
  by pat_completeness auto
termination
  by (relation "measure (\<lambda>(attempt, retries, i, lastError, delays). nat (retries - int i))")
     auto

declare fetch_loop.simps [simp del]

definition fetch_retry :: "(nat \<Rightarrow> 'e + 'a) \<Rightarrow> int \<Rightarrow> ('e option + 'a) \<times> nat \<times> int list" where
  "fetch_retry attempt retries = fetch_loop attempt retries 0 None []"

text \<open>
  The error values of the examples: a plain error with its message, and the wrapper the
  specification names for the failure after the last retry.
\<close>

datatype js_error = Error string | RetryExhausted js_error


section \<open>AsyncOperationManager (07-decorators.md, lines 557--593)\<close>

text \<open>
  JavaScript runs one piece of code at a time: an \<open>async\<close> function runs without
  interruption up to its next \<open>await\<close>, where it is suspended until the awaited promise
  settles. The model is a state machine whose steps are these uninterrupted pieces.
  The first four fields are those of the class. The other three are observations:
  \<open>awaited\<close> holds the operations that were called and whose promise is pending, each
  awaited by a suspended \<open>processQueue\<close>; \<open>started\<close> lists the operations in the
  order they were called, and \<open>enqueued\<close> in the order they were passed to \<open>add\<close>.
\<close>

record 'op AsyncOperationManager =
  queue :: "'op list"
  isProcessing :: bool
  concurrentLimit :: int
  activeCount :: int
  awaited :: "'op list"
  started :: "'op list"
  enqueued :: "'op list"

definition AsyncOperationManager_new :: "int \<Rightarrow> 'op AsyncOperationManager" where
  "AsyncOperationManager_new limit =
     \<lparr>queue = [], isProcessing = False, concurrentLimit = limit, activeCount = 0,
      awaited = [], started = [], enqueued = []\<rparr>"

text \<open>
  \<open>processQueue\<close> is entered in two ways: by a call (from \<open>add\<close>, or from its own
  last line), or by resuming after \<open>await operation()\<close> has returned and the
  \<open>finally\<close> block has decremented \<open>activeCount\<close>, which leads back to the test of
  the \<open>while\<close> loop. It runs until it suspends at the \<open>await\<close> of the operation it
  has just called, or until it returns. The call in its last line recurses without any
  change of state when the loop cannot start an operation; \<open>None\<close> is a call that
  never returns.
\<close>

datatype pq_entry = Call | Resume

partial_function (option) processQueue ::
  "pq_entry \<Rightarrow> 'op AsyncOperationManager \<Rightarrow> 'op AsyncOperationManager option" where
  "processQueue entry m =
     (if entry = Call \<and> isProcessing m then Some m
      else
        let m1 = (if entry = Call then m\<lparr>isProcessing := True\<rparr> else m) in
        if length (queue m1) > 0 \<and> activeCount m1 < concurrentLimit m1
        then Some (m1\<lparr>queue := tl (queue m1),
                      activeCount := activeCount m1 + 1,
                      awaited := awaited m1 @ [hd (queue m1)],
                      started := started m1 @ [hd (queue m1)]\<rparr>)
        else
          let m2 = m1\<lparr>isProcessing := False\<rparr> in
          if length (queue m2) > 0 then processQueue Call m2 else Some m2)"

declare processQueue.simps [code]

text \<open>
  The steps: a caller's \<open>add\<close>, and the settling of an awaited promise. When the
  promise is fulfilled the suspended \<open>processQueue\<close> goes on; when it is rejected the
  \<open>finally\<close> block runs and the exception leaves \<open>processQueue\<close>, which never
  resets \<open>isProcessing\<close>. A step that names an operation nobody awaits cannot happen
  (\<open>None\<close>).
\<close>

datatype 'op event = Add 'op | Resolve 'op | Reject 'op

fun step :: "'op AsyncOperationManager \<Rightarrow> 'op event \<Rightarrow> 'op AsyncOperationManager option" where
  "step m (Add operation) =
     processQueue Call (m\<lparr>queue := queue m @ [operation], enqueued := enqueued m @ [operation]\<rparr>)"
| "step m (Resolve operation) =
     (if operation \<in> set (awaited m)
      then processQueue Resume (m\<lparr>awaited := remove1 operation (awaited m),
                                  activeCount := activeCount m - 1\<rparr>)
      else None)"
| "step m (Reject operation) =
     (if operation \<in> set (awaited m)
      then Some (m\<lparr>awaited := remove1 operation (awaited m),
                    activeCount := activeCount m - 1\<rparr>)
      else None)"

fun run :: "'op AsyncOperationManager \<Rightarrow> 'op event list \<Rightarrow> 'op AsyncOperationManager option" where
  "run m [] = Some m"
| "run m (e # es) = (case step m e of None \<Rightarrow> None | Some m' \<Rightarrow> run m' es)"

text \<open>The operations a sequence of steps passes to \<open>add\<close>, in order.\<close>

fun added :: "'op event list \<Rightarrow> 'op list" where
  "added [] = []"
| "added (Add operation # es) = operation # added es"
| "added (e # es) = added es"

text \<open>
  The invariant of the manager: \<open>activeCount\<close> counts the awaited operations, there
  is at most one, it is awaited only while \<open>isProcessing\<close> is set and the limit is at
  least 1, and the operations enqueued are those started followed by those still queued.
\<close>

definition aom_inv :: "'op AsyncOperationManager \<Rightarrow> bool" where
  "aom_inv m \<longleftrightarrow>
     activeCount m = int (length (awaited m)) \<and> length (awaited m) \<le> 1
     \<and> (awaited m = [] \<or> (isProcessing m \<and> 1 \<le> concurrentLimit m))
     \<and> enqueued m = started m @ queue m"

section \<open>Properties of the Map model\<close>

lemma map_keys_Nil [simp]: "map_keys [] = []"
  by (simp add: map_keys_def)

lemma map_keys_Cons [simp]: "map_keys ((k, v) # m) = k # map_keys m"
  by (simp add: map_keys_def)

lemma length_map_keys [simp]: "length (map_keys m) = length m"
  by (simp add: map_keys_def)

lemma map_has_keys: "map_has m k \<longleftrightarrow> k \<in> set (map_keys m)"
  by (induction m) auto

lemma map_get_has: "map_get m k \<noteq> None \<longleftrightarrow> map_has m k"
  by (induction m) auto

lemma keys_map_delete: "map_keys (map_delete m k) = removeAll k (map_keys m)"
  by (induction m) auto

lemma keys_map_set:
  "map_keys (map_set m k v) = (if k \<in> set (map_keys m) then map_keys m else map_keys m @ [k])"
  by (induction m) auto

lemma length_map_delete: "length (map_delete m k) \<le> length m"
  by (induction m) auto

lemma length_map_set: "length (map_set m k v) \<le> Suc (length m)"
  by (induction m) auto

lemma map_get_map_set: "map_get (map_set m k v) k' = (if k' = k then Some v else map_get m k')"
  by (induction m) auto

lemma map_get_map_delete:
  "map_get (map_delete m k) k' = (if k' = k then None else map_get m k')"
  by (induction m) auto

lemma map_delete_absent: "k \<notin> set (map_keys m) \<Longrightarrow> map_delete m k = m"
  by (induction m) auto

lemma map_delete_first:
  "distinct (map_keys ((k, v) # m)) \<Longrightarrow> map_delete ((k, v) # m) k = m"
  by (simp add: map_delete_absent)

section \<open>Properties of LRUCache\<close>

lemma maxSize_LRUCache_set [simp]: "maxSize (LRUCache_set c k v) = maxSize c"
  by (simp add: LRUCache_set_def Let_def first_key_def split: list.splits)

lemma maxSize_LRUCache_get [simp]: "maxSize (snd (LRUCache_get c k)) = maxSize c"
  by (simp add: LRUCache_get_def split: option.splits)

lemma maxSize_lru_step [simp]: "maxSize (lru_step c call) = maxSize c"
  by (cases call) simp_all

lemma keys_LRUCache_get:
  "map_keys (cache (snd (LRUCache_get c k))) =
     (if k \<in> set (map_keys (cache c)) then removeAll k (map_keys (cache c)) @ [k]
      else map_keys (cache c))"
proof (cases "map_get (cache c) k")
  case None
  then have "\<not> map_has (cache c) k" using map_get_has [of "cache c" k] by simp
  with None show ?thesis by (simp add: LRUCache_get_def map_has_keys)
next
  case (Some v)
  then have "map_has (cache c) k" using map_get_has [of "cache c" k] by simp
  with Some show ?thesis
    by (simp add: LRUCache_get_def map_has_keys keys_map_set keys_map_delete)
qed

lemma keys_LRUCache_set:
  "map_keys (cache (LRUCache_set c k v)) =
     (let ks = (if maxSize c \<le> int (length (cache c))
                then (case map_keys (cache c) of [] \<Rightarrow> [] | f # r \<Rightarrow> removeAll f (f # r))
                else map_keys (cache c))
      in if k \<in> set ks then ks else ks @ [k])"
  by (cases "cache c")
     (auto simp: LRUCache_set_def Let_def first_key_def keys_map_set keys_map_delete)

lemma distinct_LRUCache_set:
  "distinct (map_keys (cache c)) \<Longrightarrow> distinct (map_keys (cache (LRUCache_set c k v)))"
  by (auto simp: keys_LRUCache_set Let_def distinct_removeAll split: list.splits)

lemma distinct_LRUCache_get:
  "distinct (map_keys (cache c)) \<Longrightarrow> distinct (map_keys (cache (snd (LRUCache_get c k))))"
  by (auto simp: keys_LRUCache_get distinct_removeAll)

lemma distinct_lru_step:
  "distinct (map_keys (cache c)) \<Longrightarrow> distinct (map_keys (cache (lru_step c call)))"
  by (cases call) (simp_all add: distinct_LRUCache_set distinct_LRUCache_get)

lemma length_LRUCache_get:
  "distinct (map_keys (cache c)) \<Longrightarrow>
   length (cache (snd (LRUCache_get c k))) = length (cache c)"
proof -
  assume d: "distinct (map_keys (cache c))"
  have "length (map_keys (cache (snd (LRUCache_get c k)))) = length (map_keys (cache c))"
  proof (cases "k \<in> set (map_keys (cache c))")
    case True
    with d have "length (removeAll k (map_keys (cache c))) = length (map_keys (cache c)) - 1"
      by (simp add: distinct_remove1_removeAll [symmetric] length_remove1)
    moreover from True have "length (map_keys (cache c)) > 0" by (cases "map_keys (cache c)") auto
    ultimately show ?thesis using True by (simp add: keys_LRUCache_get)
  next
    case False
    then show ?thesis by (simp add: keys_LRUCache_get)
  qed
  then show ?thesis by simp
qed

lemma length_LRUCache_set:
  assumes "0 < maxSize c" and "int (length (cache c)) \<le> maxSize c"
  shows "int (length (cache (LRUCache_set c k v))) \<le> maxSize c"
proof (cases "maxSize c \<le> int (length (cache c))")
  case True
  with assms obtain k0 v0 rest where m: "cache c = (k0, v0) # rest"
    by (cases "cache c") auto
  have "length (map_delete (cache c) k0) \<le> length rest"
    using length_map_delete [of rest k0] by (simp add: m)
  then have "length (map_set (map_delete (cache c) k0) k v) \<le> Suc (length rest)"
    using length_map_set [of "map_delete (cache c) k0" k v] by linarith
  with True assms(2) show ?thesis
    by (simp add: LRUCache_set_def Let_def first_key_def m)
next
  case False
  then have "int (length (cache c)) < maxSize c" by simp
  moreover have "length (map_set (cache c) k v) \<le> Suc (length (cache c))"
    by (rule length_map_set)
  ultimately show ?thesis using False by (simp add: LRUCache_set_def Let_def)
qed

lemma lru_inv_step: "0 < maxSize c \<Longrightarrow> lru_inv c \<Longrightarrow> lru_inv (lru_step c call)"
  by (cases call)
     (simp_all add: lru_inv_def distinct_LRUCache_set distinct_LRUCache_get
        length_LRUCache_set length_LRUCache_get)

lemma lru_inv_foldl:
  "0 < maxSize c \<Longrightarrow> lru_inv c \<Longrightarrow> lru_inv (foldl lru_step c calls)"
  by (induction calls arbitrary: c) (simp_all add: lru_inv_step)

lemma maxSize_foldl [simp]: "maxSize (foldl lru_step c calls) = maxSize c"
  by (induction calls arbitrary: c) simp_all

lemma lru_inv_run: "0 < n \<Longrightarrow> lru_inv (lru_run n calls)"
  unfolding lru_run_def
  by (rule lru_inv_foldl) (simp_all add: LRUCache_new_def lru_inv_def)

lemma maxSize_run [simp]: "maxSize (lru_run n calls) = n"
  by (simp add: lru_run_def LRUCache_new_def)

lemma LRUCache_set_full:
  assumes "lru_inv c" and "0 < maxSize c" and "maxSize c \<le> int (length (cache c))"
  shows "cache (LRUCache_set c k v) = map_set (tl (cache c)) k v"
proof -
  from assms obtain k0 v0 rest where m: "cache c = (k0, v0) # rest"
    by (cases "cache c") auto
  from assms(1) have "distinct (map_keys ((k0, v0) # rest))" by (simp add: lru_inv_def m)
  then have "map_delete ((k0, v0) # rest) k0 = rest" by (rule map_delete_first)
  with assms(3) show ?thesis
    by (simp add: LRUCache_set_def Let_def first_key_def m del: map_delete.simps)
qed

text \<open>
  C1. For every capacity \<open>maxSize > 0\<close> and every sequence of \<open>set\<close> and \<open>get\<close> calls
  on a new cache, the cache holds at most \<open>maxSize\<close> entries after every prefix of the
  sequence; and a \<open>set\<close> on a cache whose size has reached \<open>maxSize\<close> first drops the
  entry at the front of the iteration order and then performs the Map's \<open>set\<close>.
\<close>

theorem lru_capacity_invariant:
  assumes "0 < n"
  shows "int (length (cache (lru_run n (take i calls)))) \<le> n
       \<and> (n \<le> int (length (cache (lru_run n calls))) \<longrightarrow>
            cache (LRUCache_set (lru_run n calls) k v)
              = map_set (tl (cache (lru_run n calls))) k v)"
proof
  from assms have "lru_inv (lru_run n (take i calls))" by (rule lru_inv_run)
  then show "int (length (cache (lru_run n (take i calls)))) \<le> n"
    by (simp add: lru_inv_def)
next
  from assms have inv: "lru_inv (lru_run n calls)" by (rule lru_inv_run)
  show "n \<le> int (length (cache (lru_run n calls))) \<longrightarrow>
        cache (LRUCache_set (lru_run n calls) k v) = map_set (tl (cache (lru_run n calls))) k v"
    using LRUCache_set_full [OF inv] assms by simp
qed

theorem lru_capacity_invariant_witness:
  "(0::int) < 2
   \<and> int (length (cache (lru_run 2 (take 3 [CallSet ''A'' (1::int), CallSet ''B'' 2, CallSet ''C'' 3])))) \<le> 2
   \<and> 2 \<le> int (length (cache (lru_run 2 [CallSet ''A'' (1::int), CallSet ''B'' 2, CallSet ''C'' 3])))
   \<and> cache (LRUCache_set (lru_run 2 [CallSet ''A'' (1::int), CallSet ''B'' 2, CallSet ''C'' 3]) ''D'' 4)
       = map_set (tl (cache (lru_run 2 [CallSet ''A'' (1::int), CallSet ''B'' 2, CallSet ''C'' 3]))) ''D'' 4"
proof -
  have run: "cache (lru_run 2 [CallSet ''A'' (1::int), CallSet ''B'' 2, CallSet ''C'' 3])
           = [(''B'', 2), (''C'', 3)]"
    by (simp add: lru_run_def LRUCache_new_def LRUCache_set_def first_key_def)
  show ?thesis
    using lru_capacity_invariant [of 2 3 "[CallSet ''A'' (1::int), CallSet ''B'' 2, CallSet ''C'' 3]" "''D''" 4]
    by (simp add: run)
qed

section \<open>Recency order of LRUCache\<close>

lemma precedes_mem: "precedes j k ks \<Longrightarrow> j \<in> set ks \<and> k \<in> set ks"
  by (induction ks) (auto split: if_splits)

lemma precedes_append: "precedes j k ks \<Longrightarrow> precedes j k (ks @ xs)"
  by (induction ks) (auto split: if_splits)

lemma precedes_snoc: "j \<in> set ks \<Longrightarrow> precedes j k (ks @ [k])"
  by (induction ks) auto

lemma precedes_removeAll:
  "precedes j k ks \<Longrightarrow> x \<noteq> j \<Longrightarrow> x \<noteq> k \<Longrightarrow> precedes j k (removeAll x ks)"
  by (induction ks) (auto split: if_splits)

lemma older_get:
  assumes "older j k c" "x \<noteq> j" "j \<noteq> k"
  shows "older j k (snd (LRUCache_get c x))"
proof -
  let ?ks = "map_keys (cache c)"
  from assms have d: "distinct ?ks" by (simp add: older_def)
  have "j \<in> set ?ks \<Longrightarrow> x \<in> set ?ks \<Longrightarrow> precedes j k (removeAll x ?ks @ [x])"
  proof (cases "x = k")
    case True
    assume "j \<in> set ?ks"
    with assms(3) have "j \<in> set (removeAll k ?ks)" by simp
    then show ?thesis using True by (simp add: precedes_snoc)
  next
    case False
    assume "j \<in> set ?ks"
    with assms have "precedes j k ?ks" by (simp add: older_def)
    with False assms(2) have "precedes j k (removeAll x ?ks)" by (simp add: precedes_removeAll)
    then show ?thesis by (rule precedes_append)
  qed
  with assms show ?thesis
    by (auto simp: older_def keys_LRUCache_get distinct_removeAll)
qed

lemma older_set:
  assumes "older j k c" "x \<noteq> j" "j \<noteq> k"
  shows "older j k (LRUCache_set c x v)"
proof -
  let ?ks = "map_keys (cache c)"
  define ks' where "ks' = (if maxSize c \<le> int (length (cache c))
                then (case ?ks of [] \<Rightarrow> [] | f # r \<Rightarrow> removeAll f (f # r))
                else ?ks)"
  from assms have d: "distinct ?ks" and p: "j \<in> set ?ks \<longrightarrow> precedes j k ?ks"
    by (simp_all add: older_def)
  have d': "distinct ks'" using d by (auto simp: ks'_def distinct_removeAll split: list.splits)
  have p': "j \<in> set ks' \<longrightarrow> precedes j k ks'"
  proof (cases "maxSize c \<le> int (length (cache c))")
    case False
    with p show ?thesis by (simp add: ks'_def)
  next
    case True
    show ?thesis
    proof (cases ?ks)
      case Nil
      with True show ?thesis by (simp add: ks'_def)
    next
      case (Cons f r)
      with d have fr: "f \<notin> set r" "distinct r" by simp_all
      with True Cons have ks': "ks' = r" by (simp add: ks'_def)
      show ?thesis
      proof
        assume "j \<in> set ks'"
        with ks' fr have jr: "j \<in> set r" and fj: "f \<noteq> j" by auto
        with p Cons have "precedes j k (f # r)" by simp
        with fj show "precedes j k ks'" by (simp add: ks')
      qed
    qed
  qed
  have keys: "map_keys (cache (LRUCache_set c x v)) = (if x \<in> set ks' then ks' else ks' @ [x])"
    by (simp add: keys_LRUCache_set ks'_def Let_def)
  show ?thesis
    unfolding older_def keys using d' p' assms(2) by (auto simp: precedes_append)
qed

lemma older_step:
  "older j k c \<Longrightarrow> call_key call \<noteq> j \<Longrightarrow> j \<noteq> k \<Longrightarrow> older j k (lru_step c call)"
  by (cases call) (simp_all add: older_get older_set)

lemma older_foldl:
  "older j k c \<Longrightarrow> \<forall>call \<in> set calls. call_key call \<noteq> j \<Longrightarrow> j \<noteq> k
    \<Longrightarrow> older j k (foldl lru_step c calls)"
  by (induction calls arbitrary: c) (simp_all add: older_step)

lemma distinct_foldl:
  "distinct (map_keys (cache c)) \<Longrightarrow> distinct (map_keys (cache (foldl lru_step c calls)))"
  by (induction calls arbitrary: c) (simp_all add: distinct_lru_step)

lemma distinct_run: "distinct (map_keys (cache (lru_run n calls)))"
  unfolding lru_run_def by (rule distinct_foldl) (simp add: LRUCache_new_def)

lemma get_Some_keys:
  assumes "LRUCache_get c k = (Some v, c1)"
  shows "k \<in> set (map_keys (cache c))" "map_keys (cache c1) = removeAll k (map_keys (cache c)) @ [k]"
    "map_get (cache c) k = Some v"
proof -
  from assms have g: "map_get (cache c) k = Some v"
    by (auto simp: LRUCache_get_def split: option.splits)
  then show "map_get (cache c) k = Some v" .
  from g have "map_has (cache c) k" using map_get_has [of "cache c" k] by simp
  then show k: "k \<in> set (map_keys (cache c))" by (simp add: map_has_keys)
  from assms have "c1 = snd (LRUCache_get c k)" by simp
  with k show "map_keys (cache c1) = removeAll k (map_keys (cache c)) @ [k]"
    by (simp add: keys_LRUCache_get)
qed

lemma get_makes_older:
  assumes "distinct (map_keys (cache c))" "LRUCache_get c k = (Some v, c1)" "j \<noteq> k"
  shows "older j k c1"
proof -
  note ks = get_Some_keys [OF assms(2)]
  have "j \<in> set (removeAll k (map_keys (cache c))) \<Longrightarrow>
        precedes j k (removeAll k (map_keys (cache c)) @ [k])"
    by (rule precedes_snoc)
  with assms(1,3) show ?thesis
    by (simp add: older_def ks(2) distinct_removeAll)
qed

lemma abc_run:
  assumes "a \<noteq> b" "a \<noteq> c" "b \<noteq> c"
  shows "cache (lru_run 2 [CallSet a va, CallSet b vb, CallSet c vc]) = [(b, vb), (c, vc)]"
  using assms by (simp add: lru_run_def LRUCache_new_def LRUCache_set_def first_key_def)

text \<open>
  C5. In every state a cache can reach, a successful \<open>get\<close> of key \<open>k\<close> makes \<open>k\<close>
  the last key of the iteration order (the most recently used). From then on, under any
  further calls that do not name another key \<open>j\<close>, key \<open>j\<close> is evicted before
  \<open>k\<close> is: whenever \<open>j\<close> is still in the cache, so is \<open>k\<close>. With capacity 2 and
  three distinct keys set in the order A, B, C, \<open>get(A)\<close> finds nothing while
  \<open>get(B)\<close> and \<open>get(C)\<close> return their values.
\<close>

theorem lru_get_refreshes_recency:
  assumes "LRUCache_get (lru_run n calls0) k = (Some v, c1)"
      and "j \<noteq> k"
      and "\<forall>call \<in> set calls. call_key call \<noteq> j"
      and "a \<noteq> b" and "a \<noteq> c" and "b \<noteq> c"
  shows "last (map_keys (cache c1)) = k
       \<and> (map_has (cache (foldl lru_step c1 calls)) j
            \<longrightarrow> map_has (cache (foldl lru_step c1 calls)) k)
       \<and> fst (LRUCache_get (lru_run 2 [CallSet a va, CallSet b vb, CallSet c vc]) a) = None
       \<and> fst (LRUCache_get (lru_run 2 [CallSet a va, CallSet b vb, CallSet c vc]) b) = Some vb
       \<and> fst (LRUCache_get (lru_run 2 [CallSet a va, CallSet b vb, CallSet c vc]) c) = Some vc"
proof -
  have d: "distinct (map_keys (cache (lru_run n calls0)))" by (rule distinct_run)
  have 1: "last (map_keys (cache c1)) = k"
    by (simp add: get_Some_keys(2) [OF assms(1)])
  have "older j k c1" using d assms(1,2) by (rule get_makes_older)
  then have "older j k (foldl lru_step c1 calls)" using assms(3,2) by (rule older_foldl)
  then have 2: "map_has (cache (foldl lru_step c1 calls)) j
            \<longrightarrow> map_has (cache (foldl lru_step c1 calls)) k"
    by (auto simp: older_def map_has_keys dest: precedes_mem)
  note r = abc_run [OF assms(4,5,6)]
  have 3: "fst (LRUCache_get (lru_run 2 [CallSet a va, CallSet b vb, CallSet c vc]) a) = None"
    using assms(4,5) by (simp add: LRUCache_get_def r)
  have 4: "fst (LRUCache_get (lru_run 2 [CallSet a va, CallSet b vb, CallSet c vc]) b) = Some vb"
    using assms(4,6) by (simp add: LRUCache_get_def r)
  have 5: "fst (LRUCache_get (lru_run 2 [CallSet a va, CallSet b vb, CallSet c vc]) c) = Some vc"
    using assms(5,6) by (simp add: LRUCache_get_def r)
  from 1 2 3 4 5 show ?thesis by blast
qed

theorem lru_get_refreshes_recency_witness:
  "LRUCache_get (lru_run 3 [CallSet ''A'' (1::int), CallSet ''B'' 2]) ''A''
     = (Some 1, \<lparr>cache = [(''B'', 2), (''A'', 1)], maxSize = 3\<rparr>)
   \<and> ''B'' \<noteq> ''A''
   \<and> call_key (CallSet ''C'' (3::int)) \<noteq> ''B''
   \<and> call_key (CallSet ''D'' (4::int)) \<noteq> ''B''
   \<and> last (map_keys (cache \<lparr>cache = [(''B'', 2::int), (''A'', 1)], maxSize = 3\<rparr>)) = ''A''
   \<and> \<not> map_has (cache (foldl lru_step \<lparr>cache = [(''B'', 2::int), (''A'', 1)], maxSize = 3\<rparr>
                          [CallSet ''C'' 3, CallSet ''D'' 4])) ''B''
   \<and> map_has (cache (foldl lru_step \<lparr>cache = [(''B'', 2::int), (''A'', 1)], maxSize = 3\<rparr>
                        [CallSet ''C'' 3, CallSet ''D'' 4])) ''A''
   \<and> map_has (cache (foldl lru_step \<lparr>cache = [(''B'', 2::int), (''A'', 1)], maxSize = 3\<rparr>
                        [CallSet ''C'' 3])) ''B''
   \<and> fst (LRUCache_get (lru_run 2 [CallSet ''A'' (1::int), CallSet ''B'' 2, CallSet ''C'' 3]) ''A'') = None
   \<and> fst (LRUCache_get (lru_run 2 [CallSet ''A'' (1::int), CallSet ''B'' 2, CallSet ''C'' 3]) ''B'') = Some 2
   \<and> fst (LRUCache_get (lru_run 2 [CallSet ''A'' (1::int), CallSet ''B'' 2, CallSet ''C'' 3]) ''C'') = Some 3"
proof -
  have g: "LRUCache_get (lru_run 3 [CallSet ''A'' (1::int), CallSet ''B'' 2]) ''A''
     = (Some 1, \<lparr>cache = [(''B'', 2), (''A'', 1)], maxSize = 3\<rparr>)"
    by (simp add: lru_run_def LRUCache_new_def LRUCache_set_def LRUCache_get_def first_key_def)
  have q: "\<forall>call \<in> set [CallSet ''C'' (3::int), CallSet ''D'' 4]. call_key call \<noteq> ''B''"
    by simp
  have q1: "\<forall>call \<in> set [CallSet ''C'' (3::int)]. call_key call \<noteq> ''B''"
    by simp
  have ne: "''B'' \<noteq> ''A''" "''A'' \<noteq> ''B''" "''A'' \<noteq> ''C''" "''B'' \<noteq> ''C''"
    by simp_all
  from lru_get_refreshes_recency [OF g ne(1) q ne(2) ne(3) ne(4), of "1::int" 2 3]
       lru_get_refreshes_recency [OF g ne(1) q1 ne(2) ne(3) ne(4), of "1::int" 2 3]
  show ?thesis
    using g by (simp add: LRUCache_set_def first_key_def)
qed

text \<open>
  C6. A \<open>set\<close> of a key that is already in the cache should make it the most recently
  used entry. \<open>Map.set\<close> overwrites a present key in place, and \<open>LRUCache.set\<close>
  does not delete the key first (as \<open>get\<close> does): with capacity 3, after
  \<open>set(A), set(B), set(A)\<close> the key A is still the first of the iteration order, and
  the sets of C and D then evict A, not B.
\<close>

theorem lru_set_present_key_keeps_position:
  "map_keys (cache (lru_run 3 [CallSet ''A'' (1::int), CallSet ''B'' 2, CallSet ''A'' 3]))
     = [''A'', ''B'']
   \<and> last (map_keys (cache (lru_run 3 [CallSet ''A'' (1::int), CallSet ''B'' 2, CallSet ''A'' 3])))
       \<noteq> ''A''
   \<and> cache (lru_run 3 [CallSet ''A'' (1::int), CallSet ''B'' 2, CallSet ''A'' 3,
                        CallSet ''C'' 4, CallSet ''D'' 5])
       = [(''B'', 2), (''C'', 4), (''D'', 5)]"
  by (simp add: lru_run_def LRUCache_new_def LRUCache_set_def first_key_def)

section \<open>Expiry of Cache entries\<close>

text \<open>
  C4 (as amended). After \<open>set(key, v, ttl)\<close> at time \<open>s\<close>, a \<open>get(key)\<close> at time
  \<open>t\<close> returns \<open>v\<close> exactly when \<open>t \<le> s + ttl\<close>, and leaves the cache as it is;
  at \<open>t > s + ttl\<close> it deletes the entry and returns \<open>undefined\<close>. An entry set
  with a ttl of 10 ms is found 5 ms later and not found 15 ms later.
\<close>

theorem cache_get_after_set:
  "(t \<le> s + ttl \<longrightarrow>
      Cache_get (Cache_set c key v ttl s) key t = (Some v, Cache_set c key v ttl s))
   \<and> (s + ttl < t \<longrightarrow>
        fst (Cache_get (Cache_set c key v ttl s) key t) = None
        \<and> data (snd (Cache_get (Cache_set c key v ttl s) key t))
            = map_delete (data (Cache_set c key v ttl s)) key
        \<and> map_get (data (snd (Cache_get (Cache_set c key v ttl s) key t))) key = None)
   \<and> fst (Cache_get (Cache_set c key v 10 s) key (s + 5)) = Some v
   \<and> fst (Cache_get (Cache_set c key v 10 s) key (s + 15)) = None"
  by (simp add: Cache_get_def Cache_set_def map_get_map_set map_get_map_delete)

theorem cache_get_after_set_witness:
  "(5::int) \<le> 0 + 10
   \<and> Cache_get (Cache_set Cache_new ''k'' (1::int) 10 0) ''k'' 5
       = (Some 1, Cache_set Cache_new ''k'' 1 10 0)
   \<and> (0::int) + 10 < 15
   \<and> fst (Cache_get (Cache_set Cache_new ''k'' (1::int) 10 0) ''k'' 15) = None
   \<and> data (snd (Cache_get (Cache_set Cache_new ''k'' (1::int) 10 0) ''k'' 15)) = []"
  using cache_get_after_set [of 5 0 10 Cache_new "''k''" "1::int"]
        cache_get_after_set [of 15 0 10 Cache_new "''k''" "1::int"]
  by (simp add: Cache_set_def Cache_new_def)

text \<open>
  The claim as written puts the boundary at \<open>t < s + ttl\<close>. The source tests
  \<open>Date.now() > item.expiry\<close>, so at \<open>t = s + ttl\<close> the entry is still returned.
\<close>

theorem cache_get_at_expiry_counterexample:
  "fst (Cache_get (Cache_set Cache_new ''k'' (1::int) 10 0) ''k'' 10) = Some 1
   \<and> \<not> ((10::int) < 0 + 10)"
  by (simp add: Cache_get_def Cache_set_def Cache_new_def)

section \<open>ResourcePool: acquire and release\<close>

lemma factory_initialize [simp]: "factory (initialize p i) = factory p"
  by (induction p i rule: initialize.induct) (simp add: initialize.simps)

lemma pool_inv_push_new:
  assumes "pool_inv p"
  shows "pool_inv (p\<lparr>pool := pool p @ [factory p (created p)], created := Suc (created p)\<rparr>)"
proof -
  from assms have i: "inj (factory p)" and u: "set (pool p) \<union> inUse p = factory p ` {..<created p}"
    by (simp_all add: pool_inv_def)
  have new: "factory p (created p) \<notin> factory p ` {..<created p}"
    using i by (auto simp: inj_def)
  with u have "factory p (created p) \<notin> set (pool p)" "factory p (created p) \<notin> inUse p"
    by auto
  with assms show ?thesis
    by (auto simp: pool_inv_def lessThan_Suc)
qed

lemma pool_inv_initialize: "pool_inv p \<Longrightarrow> pool_inv (initialize p i)"
proof (induction p i rule: initialize.induct)
  case (1 p i)
  show ?case
  proof (cases "i < initialSize p")
    case True
    with 1 show ?thesis by (subst initialize.simps) (simp add: pool_inv_push_new)
  next
    case False
    with 1 show ?thesis by (subst initialize.simps) simp
  qed
qed

lemma inUse_initialize [simp]: "inUse (initialize p i) = inUse p"
  by (induction p i rule: initialize.induct) (simp add: initialize.simps)

lemma pool_inv_new: "inj f \<Longrightarrow> pool_inv (ResourcePool_new f n)"
  unfolding ResourcePool_new_def by (rule pool_inv_initialize) (simp add: pool_inv_def)

lemma inUse_new [simp]: "inUse (ResourcePool_new f n) = {}"
  by (simp add: ResourcePool_new_def)

lemma acquire_shape:
  "\<exists>item p'. acquire p = Inr (item, p') \<and> inUse p' = insert item (inUse p)
     \<and> (pool p \<noteq> [] \<longrightarrow> item = last (pool p) \<and> pool p' = butlast (pool p)
           \<and> created p' = created p)
     \<and> (pool p = [] \<longrightarrow> item = factory p (created p) \<and> pool p' = []
           \<and> created p' = Suc (created p))"
  by (simp add: acquire_def Let_def)

lemma acquire_inv:
  assumes "pool_inv p" "acquire p = Inr (item, p')"
  shows "pool_inv p' \<and> card (inUse p') = Suc (card (inUse p))"
proof (cases "pool p = []")
  case True
  from assms(1) have i: "inj (factory p)" and u: "set (pool p) \<union> inUse p = factory p ` {..<created p}"
    and f: "finite (inUse p)"
    by (simp_all add: pool_inv_def)
  have new: "factory p (created p) \<notin> factory p ` {..<created p}"
    using i by (auto simp: inj_def)
  with u have n: "factory p (created p) \<notin> inUse p" by auto
  from True assms(2) have p': "p' = p\<lparr>created := Suc (created p),
      inUse := insert (factory p (created p)) (inUse p)\<rparr>"
    by (auto simp: acquire_def Let_def)
  from assms(1) True n f show ?thesis
    by (auto simp: p' pool_inv_def lessThan_Suc)
next
  case False
  then obtain xs x where px: "pool p = xs @ [x]" by (cases "pool p" rule: rev_cases) auto
  with assms(2) have p': "p' = p\<lparr>pool := xs, inUse := insert x (inUse p)\<rparr>"
    by (auto simp: acquire_def Let_def)
  from assms(1) px have "x \<notin> inUse p" "finite (inUse p)" by (auto simp: pool_inv_def)
  moreover from assms(1) px have "pool_inv (p\<lparr>pool := xs, inUse := insert x (inUse p)\<rparr>)"
    by (auto simp: pool_inv_def)
  ultimately show ?thesis by (simp add: p')
qed

lemma acquire_run:
  "pool_inv p \<Longrightarrow>
   \<exists>p'. pool_run p (replicate m Acquire) = Inr p' \<and> card (inUse p') = card (inUse p) + m"
proof (induction m arbitrary: p)
  case 0
  then show ?case by simp
next
  case (Suc m)
  obtain item p1 where a: "acquire p = Inr (item, p1)"
    using acquire_shape [of p] by blast
  from acquire_inv [OF Suc.prems a] have i1: "pool_inv p1" and c1: "card (inUse p1) = Suc (card (inUse p))"
    by simp_all
  from Suc.IH [OF i1] obtain p' where "pool_run p1 (replicate m Acquire) = Inr p'"
    "card (inUse p') = card (inUse p1) + m" by blast
  with a c1 show ?case by simp
qed

text \<open>A pool built with one item, and the factory that numbers its objects.\<close>

lemma new_1: "ResourcePool_new (\<lambda>i::nat. i) 1 =
   \<lparr>pool = [0], inUse = {}, factory = (\<lambda>i. i), created = 1, resetLog = [], initialSize = 1\<rparr>"
  by (simp add: ResourcePool_new_def initialize.simps)

text \<open>
  C2 (as amended). \<open>acquire\<close> never suspends and never fails: it returns the idle item
  pushed last when the idle array is not empty, and otherwise an item the factory builds
  at that moment, however many items are already in use; the item joins the in-use set.
  The number of items in use is therefore not bounded by \<open>initialSize\<close>: with a
  factory that builds a new object at each call, \<open>m\<close> acquires on a new pool leave
  exactly \<open>m\<close> items in use, for every \<open>m\<close>.
\<close>

theorem acquire_never_refuses:
  "(\<exists>item p'. acquire p = Inr (item, p') \<and> inUse p' = insert item (inUse p)
     \<and> (pool p \<noteq> [] \<longrightarrow> item = last (pool p) \<and> pool p' = butlast (pool p)
           \<and> created p' = created p)
     \<and> (pool p = [] \<longrightarrow> item = factory p (created p) \<and> pool p' = []
           \<and> created p' = Suc (created p)))
   \<and> (inj f \<longrightarrow>
        (\<exists>p'. pool_run (ResourcePool_new f n) (replicate m Acquire) = Inr p'
              \<and> card (inUse p') = m))"
proof
  show "\<exists>item p'. acquire p = Inr (item, p') \<and> inUse p' = insert item (inUse p)
     \<and> (pool p \<noteq> [] \<longrightarrow> item = last (pool p) \<and> pool p' = butlast (pool p)
           \<and> created p' = created p)
     \<and> (pool p = [] \<longrightarrow> item = factory p (created p) \<and> pool p' = []
           \<and> created p' = Suc (created p))"
    by (rule acquire_shape)
next
  show "inj f \<longrightarrow>
        (\<exists>p'. pool_run (ResourcePool_new f n) (replicate m Acquire) = Inr p'
              \<and> card (inUse p') = m)"
  proof
    assume "inj f"
    then have "pool_inv (ResourcePool_new f n)" by (rule pool_inv_new)
    from acquire_run [OF this, of m] show "\<exists>p'. pool_run (ResourcePool_new f n) (replicate m Acquire) = Inr p'
              \<and> card (inUse p') = m" by simp
  qed
qed

theorem acquire_never_refuses_witness:
  "acquire (ResourcePool_new (\<lambda>i::nat. i) 1)
     = Inr (0, \<lparr>pool = [], inUse = {0}, factory = (\<lambda>i. i), created = 1, resetLog = [],
                initialSize = 1\<rparr>)
   \<and> pool (ResourcePool_new (\<lambda>i::nat. i) 1) \<noteq> []
   \<and> acquire \<lparr>pool = [], inUse = {0::nat}, factory = (\<lambda>i. i), created = 1, resetLog = [],
                initialSize = 1\<rparr>
     = Inr (1, \<lparr>pool = [], inUse = {1, 0}, factory = (\<lambda>i. i), created = 2, resetLog = [],
                initialSize = 1\<rparr>)
   \<and> inj (\<lambda>i::nat. i)
   \<and> (\<exists>p'. pool_run (ResourcePool_new (\<lambda>i::nat. i) 1) (replicate 3 Acquire) = Inr p'
              \<and> card (inUse p') = 3)"
proof -
  have i: "inj (\<lambda>i::nat. i)" by simp
  from acquire_never_refuses [of "ResourcePool_new (\<lambda>i::nat. i) 1" "\<lambda>i::nat. i" 1 3]
       acquire_never_refuses [of "\<lparr>pool = [], inUse = {0::nat}, factory = (\<lambda>i. i), created = 1, resetLog = [],
                initialSize = 1\<rparr>" "\<lambda>i::nat. i" 1 3]
  show ?thesis using i by (auto simp: new_1 acquire_def)
qed

text \<open>
  The claim as written bounds the items in use by the pool's size. A pool built with
  one item hands out two items to two acquires, the second one new from the factory.
\<close>

theorem acquire_exceeds_pool_size_counterexample:
  "map_sum id (\<lambda>p. card (inUse p))
     (pool_run (ResourcePool_new (\<lambda>i::nat. i) 1) [Acquire, Acquire]) = Inr 2
   \<and> \<not> (2::nat) \<le> 1"
  by (simp add: new_1 acquire_def)

text \<open>
  C7 (as amended). \<open>release\<close> of an item that is not in the in-use set returns normally
  and changes nothing: no error, no call of the reset hook, and the idle array and the
  in-use set stay as they are.
\<close>

theorem release_not_in_use:
  "item \<notin> inUse p \<Longrightarrow> release p item = Inr p"
  by (simp add: release_def)

theorem release_not_in_use_witness:
  "(0::nat) \<notin> inUse (ResourcePool_new (\<lambda>i. i) 1)
   \<and> release (ResourcePool_new (\<lambda>i. i) 1) (0::nat) = Inr (ResourcePool_new (\<lambda>i. i) 1)"
proof -
  have h: "(0::nat) \<notin> inUse (ResourcePool_new (\<lambda>i. i) 1)" by simp
  from release_not_in_use [OF h] h show ?thesis by simp
qed

text \<open>
  The claim as written has \<open>release\<close> fail with \<open>InvalidRelease\<close>. Releasing an
  item the pool never handed out returns normally.
\<close>

theorem release_not_in_use_counterexample:
  "release (ResourcePool_new (\<lambda>i. i) 1) (7::nat) \<noteq> Inl InvalidRelease
   \<and> release (ResourcePool_new (\<lambda>i. i) 1) (7::nat) = Inr (ResourcePool_new (\<lambda>i. i) 1)"
  by (simp add: release_def)

section \<open>Retrying: retryOperation and the loop of fetch\<close>

lemma retryOperation_failing_gen:
  assumes f: "\<And>n. operation n = Inl (err n)"
  shows "retryOperation operation retries calls
     = (Inl (err (calls + nat retries)), Suc (calls + nat retries))"
proof (induction "nat retries" arbitrary: retries calls)
  case 0
  then have "\<not> retries > 0" by simp
  with 0 show ?case by (subst retryOperation.simps) (simp add: f)
next
  case (Suc m)
  then have pos: "retries > 0" and m: "m = nat (retries - 1)" by simp_all
  from Suc have n: "nat retries = Suc (nat (retries - 1))" by simp
  have "retryOperation operation retries calls
      = retryOperation operation (retries - 1) (Suc calls)"
    using pos by (subst retryOperation.simps) (simp add: f)
  also have "\<dots> = (Inl (err (Suc calls + nat (retries - 1))), Suc (Suc calls + nat (retries - 1)))"
    by (rule Suc.hyps(1) [OF m])
  finally show ?case by (simp add: n)
qed

lemma retryOperation_failing:
  "retryOperation (\<lambda>n. Inl (err n)) retries calls
     = (Inl (err (calls + nat retries)), Suc (calls + nat retries))"
  by (rule retryOperation_failing_gen) simp

lemma fetch_loop_failing_gen:
  assumes f: "\<And>n. attempt n = Inl (err n)"
  shows "int i \<le> retries \<Longrightarrow>
   fetch_loop attempt retries i lastError delays
     = (Inl (if int i < retries then Some (err (nat retries - 1)) else lastError),
        nat retries, delays @ map fetch_delay [i..<nat retries])"
proof (induction "nat retries - i" arbitrary: i lastError delays)
  case 0
  then have "\<not> int i < retries" by simp
  with 0 show ?case by (subst fetch_loop.simps) simp
next
  case (Suc m)
  then have lt: "int i < retries" and m: "m = nat retries - Suc i" and le: "int (Suc i) \<le> retries"
    by simp_all
  have "fetch_loop attempt retries i lastError delays
      = fetch_loop attempt retries (Suc i) (Some (err i)) (delays @ [fetch_delay i])"
    using lt by (subst fetch_loop.simps) (simp add: f)
  also have "\<dots> = (Inl (if int (Suc i) < retries then Some (err (nat retries - 1)) else Some (err i)),
        nat retries, (delays @ [fetch_delay i]) @ map fetch_delay [Suc i..<nat retries])"
    by (rule Suc.hyps(1) [OF m le])
  also have "(if int (Suc i) < retries then Some (err (nat retries - 1)) else Some (err i))
           = Some (err (nat retries - 1))"
  proof (cases "int (Suc i) < retries")
    case True then show ?thesis by simp
  next
    case False
    with le have "nat retries - 1 = i" by simp
    with False show ?thesis by simp
  qed
  also have "(delays @ [fetch_delay i]) @ map fetch_delay [Suc i..<nat retries]
       = delays @ map fetch_delay [i..<nat retries]"
    using lt by (simp add: upt_conv_Cons)
  finally show ?case using lt by simp
qed

lemma fetch_retry_failing:
  "fetch_retry (\<lambda>n. Inl (err n)) retries
     = (Inl (if 0 < retries then Some (err (nat retries - 1)) else None),
        nat retries, map fetch_delay [0..<nat retries])"
proof (cases "0 \<le> retries")
  case True
  then show ?thesis
    using fetch_loop_failing_gen [of "\<lambda>n. Inl (err n)" err 0 retries None "[]"]
    by (simp add: fetch_retry_def)
next
  case False
  then show ?thesis by (simp add: fetch_retry_def fetch_loop.simps)
qed

text \<open>
  C3 (as amended). On an operation that fails at every call, \<open>retryOperation\<close> with
  \<open>retries = 2\<close> calls it exactly 3 times (in general once more than \<open>retries\<close>) and
  then throws the error of the last call itself, with no wrapper around it.
  \<open>NetworkOptimizer.fetch\<close> with \<open>retries = 2\<close> makes exactly 2 attempts (in general
  \<open>retries\<close> of them) and then throws the last error, again as it is.
\<close>

theorem retry_attempts_and_final_error:
  "retryOperation (\<lambda>n. Inl (err n)) retries calls
     = (Inl (err (calls + nat retries)), Suc (calls + nat retries))
   \<and> retryOperation (\<lambda>n. Inl (err n)) 2 0 = (Inl (err 2), 3)
   \<and> fetch_retry (\<lambda>n. Inl (err n)) retries
     = (Inl (if 0 < retries then Some (err (nat retries - 1)) else None),
        nat retries, map fetch_delay [0..<nat retries])
   \<and> fst (fetch_retry (\<lambda>n. Inl (err n)) 2) = Inl (Some (err 1))
   \<and> fst (snd (fetch_retry (\<lambda>n. Inl (err n)) 2)) = 2"
  using retryOperation_failing [of err 2 0]
  by (simp add: retryOperation_failing fetch_retry_failing numeral_2_eq_2)

text \<open>
  The claim as written has the last error wrapped as \<open>RetryExhausted\<close> after 3 attempts.
  \<open>retryOperation\<close> throws the operation's own error, and \<open>fetch\<close> stops after 2
  attempts.
\<close>

theorem retry_error_not_wrapped_counterexample:
  "retryOperation (\<lambda>n. Inl (Error ''boom'') :: js_error + unit) 2 0 = (Inl (Error ''boom''), 3)
   \<and> (Inl (Error ''boom'') :: js_error + unit) \<noteq> Inl (RetryExhausted (Error ''boom''))
   \<and> fst (fetch_retry (\<lambda>n. Inl (Error ''boom'') :: js_error + unit) 2) = Inl (Some (Error ''boom''))
   \<and> fst (snd (fetch_retry (\<lambda>n. Inl (Error ''boom'') :: js_error + unit) 2)) = 2
   \<and> (2::nat) \<noteq> 3"
  by (simp add: retryOperation.simps fetch_retry_def fetch_loop.simps)








section \<open>AsyncOperationManager: one operation at a time, in order\<close>

lemma processQueue_inv_aux:
  assumes ret: "processQueue entry0 m0 = Some m0'"
  shows "aom_inv m0 \<and> (entry0 = Resume \<longrightarrow> awaited m0 = [] \<and> isProcessing m0)
     \<longrightarrow> concurrentLimit m0' = concurrentLimit m0 \<and> enqueued m0' = enqueued m0 \<and> aom_inv m0'"
proof (rule processQueue.raw_induct
    [where P = "\<lambda>entry m m'. aom_inv m \<and> (entry = Resume \<longrightarrow> awaited m = [] \<and> isProcessing m)
        \<longrightarrow> concurrentLimit m' = concurrentLimit m \<and> enqueued m' = enqueued m \<and> aom_inv m'",
     OF _ ret], goal_cases)
  case (1 pq entry m m')
  note IH = "1"(1) and body = "1"(2)
  show ?case
  proof
  assume pre: "aom_inv m \<and> (entry = Resume \<longrightarrow> awaited m = [] \<and> isProcessing m)"
  then have inv: "aom_inv m" and res: "entry = Resume \<longrightarrow> awaited m = [] \<and> isProcessing m"
    by simp_all
  show "concurrentLimit m' = concurrentLimit m \<and> enqueued m' = enqueued m \<and> aom_inv m'"
  proof (cases "entry = Call \<and> isProcessing m")
    case True
    with body inv show ?thesis by simp
  next
    case False
    define m1 where "m1 = (if entry = Call then m\<lparr>isProcessing := True\<rparr> else m)"
    have e: "entry = Call \<or> entry = Resume" by (cases entry) simp_all
    from False inv res e have idle: "awaited m = []" by (auto simp: aom_inv_def)
    with inv have ac: "activeCount m = 0" by (simp add: aom_inv_def)
    from False res e have p1: "isProcessing m1" by (auto simp: m1_def)
    have m1: "queue m1 = queue m" "activeCount m1 = 0" "awaited m1 = []" "started m1 = started m"
      "enqueued m1 = enqueued m" "concurrentLimit m1 = concurrentLimit m"
      using idle ac by (simp_all add: m1_def)
    show ?thesis
    proof (cases "length (queue m1) > 0 \<and> activeCount m1 < concurrentLimit m1")
      case True
      with body False have m': "m' = m1\<lparr>queue := tl (queue m1),
                      activeCount := activeCount m1 + 1,
                      awaited := awaited m1 @ [hd (queue m1)],
                      started := started m1 @ [hd (queue m1)]\<rparr>"
        by (auto simp: m1_def Let_def split: if_splits)
      from True have "hd (queue m) # tl (queue m) = queue m" by (simp add: m1)
      with inv True p1 show ?thesis by (simp add: m' m1 aom_inv_def)
    next
      case c: False
      define m2 where "m2 = m1\<lparr>isProcessing := False\<rparr>"
      from inv have i2: "aom_inv m2" by (simp add: m2_def m1 aom_inv_def)
      have l2: "concurrentLimit m2 = concurrentLimit m" "enqueued m2 = enqueued m"
        by (simp_all add: m2_def m1)
      show ?thesis
      proof (cases "length (queue m2) > 0")
        case True
        with body False c have "pq Call m2 = Some m'"
          by (auto simp: m1_def m2_def Let_def split: if_splits)
        from IH [OF this] i2 l2 show ?thesis by simp
      next
        case q: False
        with body False c have "m' = m2"
          by (auto simp: m1_def m2_def Let_def split: if_splits)
        with i2 l2 show ?thesis by simp
      qed
    qed
  qed
  qed
qed

lemma processQueue_inv:
  "processQueue entry m = Some m' \<Longrightarrow> aom_inv m
   \<Longrightarrow> (entry = Resume \<longrightarrow> awaited m = [] \<and> isProcessing m)
   \<Longrightarrow> concurrentLimit m' = concurrentLimit m \<and> enqueued m' = enqueued m \<and> aom_inv m'"
  using processQueue_inv_aux [of entry m m'] by blast

lemma step_inv:
  assumes "step m e = Some m'" "aom_inv m"
  shows "concurrentLimit m' = concurrentLimit m \<and> enqueued m' = enqueued m @ added [e]
         \<and> aom_inv m'"
proof (cases e)
  case (Add operation)
  let ?m = "m\<lparr>queue := queue m @ [operation], enqueued := enqueued m @ [operation]\<rparr>"
  from assms(2) have "aom_inv ?m" by (simp add: aom_inv_def)
  moreover from assms(1) Add have "processQueue Call ?m = Some m'" by simp
  ultimately show ?thesis using processQueue_inv [of Call ?m m'] Add by simp
next
  case (Resolve operation)
  let ?m = "m\<lparr>awaited := remove1 operation (awaited m), activeCount := activeCount m - 1\<rparr>"
  from assms(1) Resolve have mem: "operation \<in> set (awaited m)" and
    pq: "processQueue Resume ?m = Some m'" by (simp_all split: if_splits)
  from mem assms(2) have a: "awaited m = [operation]"
    by (cases "awaited m") (auto simp: aom_inv_def)
  with assms(2) have "aom_inv ?m" "awaited ?m = [] \<and> isProcessing ?m"
    by (simp_all add: aom_inv_def)
  with pq show ?thesis using processQueue_inv [of Resume ?m m'] Resolve by simp
next
  case (Reject operation)
  from assms(1) Reject have mem: "operation \<in> set (awaited m)" and
    m': "m' = m\<lparr>awaited := remove1 operation (awaited m), activeCount := activeCount m - 1\<rparr>"
    by (simp_all split: if_splits)
  from mem assms(2) have a: "awaited m = [operation]"
    by (cases "awaited m") (auto simp: aom_inv_def)
  with assms(2) Reject show ?thesis by (simp add: m' aom_inv_def)
qed

lemma added_Cons: "added (e # es) = added [e] @ added es"
  by (cases e) simp_all

lemma run_inv:
  "run m es = Some m' \<Longrightarrow> aom_inv m \<Longrightarrow>
   concurrentLimit m' = concurrentLimit m \<and> enqueued m' = enqueued m @ added es \<and> aom_inv m'"
proof (induction es arbitrary: m)
  case Nil
  then show ?case by simp
next
  case (Cons e es)
  then obtain m1 where s: "step m e = Some m1" and r: "run m1 es = Some m'"
    by (auto split: option.splits)
  from step_inv [OF s Cons.prems(2)] Cons.IH [OF r] show ?case
    by (simp add: added_Cons [of e es])
qed

lemma aom_inv_new: "aom_inv (AsyncOperationManager_new limit)"
  by (simp add: aom_inv_def AsyncOperationManager_new_def)

lemma run_new_inv:
  assumes "run (AsyncOperationManager_new limit) es = Some m"
  shows "concurrentLimit m = limit" "enqueued m = added es" "aom_inv m"
  using run_inv [OF assms aom_inv_new] by (simp_all add: AsyncOperationManager_new_def)

text \<open>With a limit of at least 1 every call of the model returns.\<close>

lemma add_returns:
  assumes "aom_inv m" "1 \<le> concurrentLimit m"
  shows "\<exists>m'. step m (Add operation) = Some m'"
proof (cases "isProcessing m")
  case True
  then show ?thesis by (subst step.simps, subst processQueue.simps) simp
next
  case False
  with assms(1) have "awaited m = []" "activeCount m = 0" by (auto simp: aom_inv_def)
  with False assms(2) show ?thesis
    by (subst step.simps, subst processQueue.simps) (simp add: Let_def)
qed

lemma resolve_returns:
  assumes "aom_inv m" "operation \<in> set (awaited m)"
  shows "\<exists>m'. step m (Resolve operation) = Some m'"
proof -
  from assms have a: "awaited m = [operation]" "activeCount m = 1" "1 \<le> concurrentLimit m"
    by (cases "awaited m"; auto simp: aom_inv_def)+
  let ?m = "m\<lparr>awaited := remove1 operation (awaited m), activeCount := activeCount m - 1\<rparr>"
  have "\<exists>m'. processQueue Resume ?m = Some m'"
    using a by (subst processQueue.simps) (simp add: Let_def)
  with assms(2) show ?thesis by simp
qed

text \<open>
  With a limit that the count of active operations has reached (a limit of 0, say, on
  a new manager), \<open>add\<close> never returns: \<open>processQueue\<close> calls itself for ever.
\<close>

lemma processQueue_diverges_aux:
  assumes ret: "processQueue entry0 m0 = Some m0'"
  shows "\<not> (entry0 = Call \<and> \<not> isProcessing m0 \<and> queue m0 \<noteq> []
            \<and> concurrentLimit m0 \<le> activeCount m0)"
proof (rule processQueue.raw_induct
    [where P = "\<lambda>entry m m'. \<not> (entry = Call \<and> \<not> isProcessing m \<and> queue m \<noteq> []
            \<and> concurrentLimit m \<le> activeCount m)", OF _ ret], goal_cases)
  case (1 pq entry m m')
  note IH = "1"(1) and body = "1"(2)
  show ?case
  proof
    assume c: "entry = Call \<and> \<not> isProcessing m \<and> queue m \<noteq> []
            \<and> concurrentLimit m \<le> activeCount m"
    with body have "pq Call (m\<lparr>isProcessing := True\<rparr>\<lparr>isProcessing := False\<rparr>) = Some m'"
      by (simp add: Let_def)
    from IH [OF this] c show False by simp
  qed
qed

lemma add_never_returns:
  "\<not> isProcessing m \<Longrightarrow> concurrentLimit m \<le> activeCount m \<Longrightarrow> step m (Add operation) = None"
proof (rule ccontr)
  assume a: "\<not> isProcessing m" "concurrentLimit m \<le> activeCount m"
    and "step m (Add operation) \<noteq> None"
  then obtain m' where "processQueue Call
      (m\<lparr>queue := queue m @ [operation], enqueued := enqueued m @ [operation]\<rparr>) = Some m'"
    by auto
  from processQueue_diverges_aux [OF this] a show False by simp
qed

text \<open>Two runs: three operations added with limit 3; and a completion with limit 2.\<close>

lemma run_3_adds:
  "run (AsyncOperationManager_new 3) [Add ''a'', Add ''b'', Add ''c'']
     = Some \<lparr>queue = [''b'', ''c''], isProcessing = True, concurrentLimit = 3,
              activeCount = 1, awaited = [''a''], started = [''a''],
              enqueued = [''a'', ''b'', ''c'']\<rparr>"
  by code_simp

lemma run_2_resolve:
  "run (AsyncOperationManager_new 2) [Add ''a'', Add ''b'', Add ''c'', Resolve ''a'']
     = Some \<lparr>queue = [''c''], isProcessing = True, concurrentLimit = 2,
              activeCount = 1, awaited = [''b''], started = [''a'', ''b''],
              enqueued = [''a'', ''b'', ''c'']\<rparr>"
  by code_simp

text \<open>
  C10. Whatever the configured \<open>concurrentLimit\<close>, in every state the manager reaches
  \<open>activeCount\<close> is at most 1 and at most one operation is in flight: the loop awaits
  each operation before it takes the next one from the queue.
\<close>

theorem aom_one_at_a_time:
  assumes "run (AsyncOperationManager_new limit) es = Some m"
  shows "activeCount m \<le> 1 \<and> length (awaited m) \<le> 1 \<and> activeCount m = int (length (awaited m))"
  using run_new_inv(3) [OF assms] by (simp add: aom_inv_def)

theorem aom_one_at_a_time_witness:
  "run (AsyncOperationManager_new 3) [Add ''a'', Add ''b'', Add ''c'']
     = Some \<lparr>queue = [''b'', ''c''], isProcessing = True, concurrentLimit = 3,
              activeCount = 1, awaited = [''a''], started = [''a''],
              enqueued = [''a'', ''b'', ''c'']\<rparr>
   \<and> activeCount \<lparr>queue = [''b'', ''c''], isProcessing = True, concurrentLimit = 3,
              activeCount = 1, awaited = [''a''], started = [''a''],
              enqueued = [''a'', ''b'', ''c'']\<rparr> \<le> 1
   \<and> length (awaited \<lparr>queue = [''b'', ''c''], isProcessing = True, concurrentLimit = 3,
              activeCount = 1, awaited = [''a''], started = [''a''],
              enqueued = [''a'', ''b'', ''c'']\<rparr>) \<le> 1"
  using aom_one_at_a_time [OF run_3_adds] run_3_adds by simp

text \<open>
  C8. For every limit (a count, so not negative) and every sequence of steps, the number
  of operations in flight never exceeds the limit, and the operations started so far are a
  prefix of the operations enqueued, in the order of their enqueuing: each operation is
  started after all those enqueued before it.
\<close>

theorem aom_limit_and_fifo:
  assumes "0 \<le> limit" and "run (AsyncOperationManager_new limit) es = Some m"
  shows "int (length (awaited m)) \<le> limit \<and> activeCount m \<le> limit
       \<and> prefix (started m) (added es) \<and> added es = started m @ queue m"
proof -
  note r = run_new_inv [OF assms(2)]
  from r(3) have a: "awaited m = [] \<or> 1 \<le> concurrentLimit m" "length (awaited m) \<le> 1"
    "activeCount m = int (length (awaited m))" and q: "enqueued m = started m @ queue m"
    by (auto simp: aom_inv_def)
  from q r(2) have f: "added es = started m @ queue m" by simp
  then have p: "prefix (started m) (added es)" by (simp add: prefixI)
  from a assms(1) r(1) have "int (length (awaited m)) \<le> limit" by auto
  with a(3) f p show ?thesis by simp
qed

theorem aom_limit_and_fifo_witness:
  "(0::int) \<le> 2
   \<and> run (AsyncOperationManager_new 2) [Add ''a'', Add ''b'', Add ''c'', Resolve ''a'']
     = Some \<lparr>queue = [''c''], isProcessing = True, concurrentLimit = 2,
              activeCount = 1, awaited = [''b''], started = [''a'', ''b''],
              enqueued = [''a'', ''b'', ''c'']\<rparr>
   \<and> int (length (awaited \<lparr>queue = [''c''], isProcessing = True, concurrentLimit = 2,
              activeCount = 1, awaited = [''b''], started = [''a'', ''b''],
              enqueued = [''a'', ''b'', ''c'']\<rparr>)) \<le> 2
   \<and> prefix [''a'', ''b''] (added [Add ''a'', Add ''b'', Add ''c'', Resolve ''a''])
   \<and> added [Add ''a'', Add ''b'', Add ''c'', Resolve ''a''] = [''a'', ''b''] @ [''c'']"
proof -
  have h: "(0::int) \<le> 2" by simp
  from aom_limit_and_fifo [OF h run_2_resolve] run_2_resolve show ?thesis by simp
qed

end
